theory Spec2Isabelle
  imports Complex_Main "HOL-Library.Word" "HOL-Library.Log_Nat"
begin

section \<open>Strings of the source language\<close>

text \<open>
  A JavaScript string is a sequence of UTF-16 code units; \<open>length\<close>, \<open>slice\<close> and the
  regular-expression matcher (without the \<open>u\<close> flag) all count code units.
  The rupee sign U+20B9 is one code unit.
\<close>

type_synonym cu = "16 word"
type_synonym jsstring = "cu list"

definition js :: "string \<Rightarrow> jsstring" where
  \<comment> \<open>an ASCII literal of the source, as code units\<close>
  "js s = map (\<lambda>c. of_nat (of_char c)) s"

definition is_digit :: "cu \<Rightarrow> bool" where
  \<comment> \<open>the class \<open>\d\<close>, i.e. \<open>[0-9]\<close>\<close>
  "is_digit c \<longleftrightarrow> 0x30 \<le> c \<and> c \<le> 0x39"

definition is_space :: "cu \<Rightarrow> bool" where
  \<comment> \<open>the class \<open>\s\<close>: WhiteSpace and LineTerminator of ECMAScript\<close>
  "is_space c \<longleftrightarrow>
     c = 0x09 \<or> c = 0x0A \<or> c = 0x0B \<or> c = 0x0C \<or> c = 0x0D \<or> c = 0x20 \<or> c = 0xA0 \<or>
     c = 0x1680 \<or> (0x2000 \<le> c \<and> c \<le> 0x200A) \<or> c = 0x2028 \<or> c = 0x2029 \<or>
     c = 0x202F \<or> c = 0x205F \<or> c = 0x3000 \<or> c = 0xFEFF"

definition Canonicalize :: "cu \<Rightarrow> cu" where
  \<comment> \<open>Case folding of the \<open>i\<close> flag without the \<open>u\<close> flag: the code unit is mapped to
      its upper case, except that a code unit of 128 or more is never mapped below 128.
      Only the ASCII letters are folded here: the literals of the pattern are
      \<open>R\<close>, \<open>S\<close>, \<open>I\<close>, \<open>N\<close>, \<open>:\<close>, \<open>.\<close> and U+20B9, and no code unit outside ASCII has
      one of these as its canonical form.\<close>
  "Canonicalize c = (if 0x61 \<le> c \<and> c \<le> 0x7A then c - 0x20 else c)"

section \<open>The regular-expression matcher\<close>

datatype atom =
    Lit cu      \<comment> \<open>a pattern character, compared under \<open>Canonicalize\<close> (flag \<open>i\<close>)\<close>
  | Digit       \<comment> \<open>\<open>\d\<close>\<close>
  | Space       \<comment> \<open>\<open>\s\<close>\<close>

datatype regex =
    Atom atom
  | Seq regex regex                 \<comment> \<open>concatenation\<close>
  | Alt regex regex                 \<comment> \<open>\<open>r|s\<close>, left alternative first\<close>
  | Opt regex                       \<comment> \<open>\<open>r?\<close>, greedy\<close>
  | Rep atom nat "nat option"       \<comment> \<open>\<open>a{lo,hi}\<close>, greedy; \<open>a+\<close> is \<open>Rep a 1 None\<close>\<close>
  | Group nat regex                 \<comment> \<open>capturing group number \<open>k\<close>\<close>

type_synonym captures = "nat \<rightharpoonup> jsstring"

fun atom_ok :: "atom \<Rightarrow> cu \<Rightarrow> bool" where
  "atom_ok (Lit p) c = (Canonicalize c = Canonicalize p)"
| "atom_ok Digit c = is_digit c"
| "atom_ok Space c = is_space c"

text \<open>
  The greedy repetition of one atom: every way to match between \<open>lo\<close> and \<open>hi\<close>
  characters, the longest first (the order in which a backtracking matcher tries them).
  Each result is the matched text and the rest of the input.
\<close>

fun rep :: "atom \<Rightarrow> nat \<Rightarrow> nat option \<Rightarrow> jsstring \<Rightarrow> (jsstring \<times> jsstring) list" where
  "rep a lo hi [] = (if lo = 0 then [([], [])] else [])"
| "rep a lo hi (x # xs) =
     (if atom_ok a x \<and> hi \<noteq> Some 0
      then map (\<lambda>(m, r). (x # m, r)) (rep a (lo - 1) (map_option (\<lambda>h. h - 1) hi) xs)
      else [])
     @ (if lo = 0 then [([], x # xs)] else [])"

text \<open>
  The matcher at one position: all ways for the pattern to match a prefix of the input,
  in the priority order of ECMAScript's backtracking semantics; the head of the list is
  the match that \<open>exec\<close> reports. A result is (matched text, rest of input, captures).
  An iteration of \<open>r?\<close> that matches the empty string is rejected, as in RepeatMatcher.
\<close>

fun rmatch :: "regex \<Rightarrow> jsstring \<Rightarrow> captures \<Rightarrow> (jsstring \<times> jsstring \<times> captures) list" where
  "rmatch (Atom a) s c =
     (case s of [] \<Rightarrow> [] | x # xs \<Rightarrow> if atom_ok a x then [([x], xs, c)] else [])"
| "rmatch (Seq r1 r2) s c =
     concat (map (\<lambda>(m1, s1, c1). map (\<lambda>(m2, s2, c2). (m1 @ m2, s2, c2)) (rmatch r2 s1 c1))
                 (rmatch r1 s c))"
| "rmatch (Alt r1 r2) s c = rmatch r1 s c @ rmatch r2 s c"
| "rmatch (Opt r) s c = filter (\<lambda>(m, s', c'). m \<noteq> []) (rmatch r s c) @ [([], s, c)]"
| "rmatch (Rep a lo hi) s c = map (\<lambda>(m, s'). (m, s', c)) (rep a lo hi s)"
| "rmatch (Group k r) s c = map (\<lambda>(m, s', c'). (m, s', c'(k \<mapsto> m))) (rmatch r s c)"

record match_result =
  index :: nat                \<comment> \<open>position of the match in the input\<close>
  matched :: jsstring         \<comment> \<open>element 0 of the match array\<close>
  groups :: captures          \<comment> \<open>elements 1, 2, ... of the match array\<close>

text \<open>
  RegExpBuiltinExec for a pattern without the \<open>g\<close> and \<open>y\<close> flags: try position 0, 1, ...
  up to the end of the input and report the first position where the matcher succeeds.
  \<open>i\<close> is the position of \<open>s\<close> in the whole input.
\<close>

fun exec_from :: "regex \<Rightarrow> nat \<Rightarrow> jsstring \<Rightarrow> match_result option" where
  "exec_from r i s =
     (case rmatch r s Map.empty of
        (m, s', c) # _ \<Rightarrow> Some \<lparr>index = i, matched = m, groups = c\<rparr>
      | [] \<Rightarrow> (case s of [] \<Rightarrow> None | x # xs \<Rightarrow> exec_from r (Suc i) xs))"

declare exec_from.simps [simp del]

definition match :: "jsstring \<Rightarrow> regex \<Rightarrow> match_result option" where
  \<comment> \<open>\<open>String.prototype.match\<close> with a non-global pattern\<close>
  "match s r = exec_from r 0 s"

definition replace :: "jsstring \<Rightarrow> regex \<Rightarrow> jsstring \<Rightarrow> jsstring" where
  \<comment> \<open>\<open>String.prototype.replace\<close> with a non-global pattern and a replacement string
      without \<open>$\<close>: only the first match is replaced\<close>
  "replace s r t =
     (case exec_from r 0 s of
        None \<Rightarrow> s
      | Some mr \<Rightarrow> take (index mr) s @ t @ drop (index mr + length (matched mr)) s)"

definition slice :: "jsstring \<Rightarrow> nat \<Rightarrow> nat \<Rightarrow> jsstring" where
  \<comment> \<open>\<open>String.prototype.slice\<close> for non-negative bounds\<close>
  "slice s from to = take (to - from) (drop from s)"

section \<open>The extractor\<close>

text \<open>
  The pattern of \<open>parseExpenseFromSms\<close>, as written in the source:
  \<^verbatim>\<open>/(?:RS|INR|U+20B9)\s?(\d+(:?\.\d{1,2})?)/i\<close>.
  The second group opens with \<open>(:?\<close>, a capturing group that starts with an optional
  colon.
\<close>

definition rupee :: cu where
  "rupee = 0x20B9"

definition marker :: regex where
  \<comment> \<open>\<open>(?:RS|INR|U+20B9)\<close>\<close>
  "marker =
     Alt (Seq (Atom (Lit 0x52)) (Atom (Lit 0x53)))
    (Alt (Seq (Atom (Lit 0x49)) (Seq (Atom (Lit 0x4E)) (Atom (Lit 0x52))))
         (Atom (Lit rupee)))"

definition fraction :: regex where
  \<comment> \<open>\<open>(:?\.\d{1,2})\<close>, group 2\<close>
  "fraction =
     Group 2 (Seq (Opt (Atom (Lit 0x3A))) (Seq (Atom (Lit 0x2E)) (Rep Digit 1 (Some 2))))"

definition numeric_token :: regex where
  \<comment> \<open>\<open>(\d+(:?\.\d{1,2})?)\<close>, group 1\<close>
  "numeric_token = Group 1 (Seq (Rep Digit 1 None) (Opt fraction))"

definition amountRegex :: regex where
  "amountRegex = Seq marker (Seq (Opt (Atom Space)) numeric_token)"

subsection \<open>Numbers and \<open>parseFloat\<close>\<close>

text \<open>
  A Number is an IEEE 754 binary64 value. A finite value is kept as the rational it
  denotes; the two infinities, the negative zero and NaN are values of their own.
\<close>

datatype number = NaN | PosInf | NegInf | NegZero | Fin rat

definition pow2 :: "int \<Rightarrow> rat" where
  "pow2 e = (if 0 \<le> e then 2 ^ nat e else 1 / 2 ^ nat (- e))"

definition pow10 :: "int \<Rightarrow> rat" where
  "pow10 e = (if 0 \<le> e then 10 ^ nat e else 1 / 10 ^ nat (- e))"

definition round_half_even :: "int \<Rightarrow> int \<Rightarrow> int" where
  \<comment> \<open>the integer nearest to \<open>n / d\<close> for \<open>0 < d\<close>, a tie going to the even one\<close>
  "round_half_even n d =
     (let q = n div d; r = n mod d
      in if 2 * r < d then q else if d < 2 * r then q + 1 else if even q then q else q + 1)"

definition binade :: "int \<Rightarrow> int \<Rightarrow> int" where
  \<comment> \<open>\<open>\<lfloor>log\<^sub>2 (a / b)\<rfloor>\<close> for positive \<open>a\<close> and \<open>b\<close>\<close>
  "binade a b =
     (let e = bitlen a - bitlen b
      in if (if 0 \<le> e then 2 ^ nat e * b \<le> a else b \<le> 2 ^ nat (- e) * a) then e else e - 1)"

definition number_value :: "rat \<Rightarrow> number" where
  \<comment> \<open>the Number value for a mathematical value \<open>x \<ge> 0\<close>: the nearest binary64 value,
      ties to even, and \<open>+\<infinity>\<close> from \<open>2\<^sup>1\<^sup>0\<^sup>2\<^sup>4\<close> on (what every engine computes for a
      decimal literal of any length)\<close>
  "number_value x =
     (if x = 0 then Fin 0
      else
        let (a, b) = quotient_of x;
            k = max (binade a b) (- 1022) - 52;
            n = (if 0 \<le> k then round_half_even a (b * 2 ^ nat k)
                 else round_half_even (a * 2 ^ nat (- k)) b);
            y = of_int n * pow2 k
        in if 2 ^ 1024 \<le> y then PosInf else Fin y)"

definition digits_val :: "jsstring \<Rightarrow> int" where
  \<comment> \<open>the value of a string of decimal digits\<close>
  "digits_val ds = foldl (\<lambda>acc d. 10 * acc + (uint d - 48)) 0 ds"

definition exponent_part :: "jsstring \<Rightarrow> int" where
  \<comment> \<open>the value of the longest ExponentPart (\<open>e\<close> or \<open>E\<close>, an optional sign, digits) that
      starts the string; 0 when there is none\<close>
  "exponent_part s =
     (case s of
        [] \<Rightarrow> 0
      | c # r \<Rightarrow>
          if c = 0x65 \<or> c = 0x45 then
            (case r of
               [] \<Rightarrow> 0
             | d # r' \<Rightarrow>
                 if d = 0x2B then digits_val (takeWhile is_digit r')
                 else if d = 0x2D then - digits_val (takeWhile is_digit r')
                 else digits_val (takeWhile is_digit r))
          else 0)"

definition unsigned_literal :: "jsstring \<Rightarrow> number" where
  \<comment> \<open>the value of the longest prefix that is a StrUnsignedDecimalLiteral, NaN when
      there is none\<close>
  "unsigned_literal s =
     (if take 8 s = js ''Infinity'' then PosInf
      else
        let ip = takeWhile is_digit s;
            r1 = dropWhile is_digit s;
            fp = (case r1 of [] \<Rightarrow> [] | c # r \<Rightarrow> if c = 0x2E then takeWhile is_digit r else []);
            r2 = (case r1 of [] \<Rightarrow> [] | c # r \<Rightarrow> if c = 0x2E then dropWhile is_digit r else r1)
        in if ip = [] \<and> fp = [] then NaN
           else number_value
                  (of_int (digits_val (ip @ fp)) * pow10 (exponent_part r2 - int (length fp))))"

fun negate :: "number \<Rightarrow> number" where
  "negate NaN = NaN"
| "negate PosInf = NegInf"
| "negate NegInf = PosInf"
| "negate NegZero = Fin 0"
| "negate (Fin q) = (if q = 0 then NegZero else Fin (- q))"

definition parseFloat :: "jsstring \<Rightarrow> number" where
  \<comment> \<open>leading white space is skipped, then the longest prefix that is a
      StrDecimalLiteral is evaluated; whatever follows it is ignored\<close>
  "parseFloat s =
     (case dropWhile is_space s of
        [] \<Rightarrow> NaN
      | c # r \<Rightarrow>
          if c = 0x2D then negate (unsigned_literal r)
          else if c = 0x2B then unsigned_literal r
          else unsigned_literal (c # r))"

subsection \<open>\<open>parseExpenseFromSms\<close> and the scan\<close>

text \<open>
  The \<open>date\<close> field is the string \<open>new Date(parseInt(date)).toLocaleDateString()\<close>. Its
  characters depend on the locale and time zone of the device, so it is kept symbolic,
  tagged with the time value in milliseconds that the message carries.
\<close>

datatype date_string = LocaleDateString int

record Expense =
  amount :: number
  description :: jsstring
  date :: date_string

definition parseExpenseFromSms :: "jsstring \<Rightarrow> int \<Rightarrow> Expense option" where
  \<comment> \<open>\<open>smsDate\<close> is the source's parameter \<open>date\<close>, an integer number of milliseconds\<close>
  "parseExpenseFromSms body smsDate =
     (case match body amountRegex of
        None \<Rightarrow> None
      | Some amountMatch \<Rightarrow>
          Some \<lparr>amount = (case groups amountMatch 1 of None \<Rightarrow> NaN | Some t \<Rightarrow> parseFloat t),
                description = slice (replace body amountRegex []) 0 50 @ js ''...'',
                date = LocaleDateString smsDate\<rparr>)"

record sms =
  body :: jsstring
  date :: int

definition scanSmsForExpenses :: "sms list \<Rightarrow> Expense list" where
  \<comment> \<open>the list \<open>newExpenses\<close> that the success callback hands to \<open>setExpenses\<close>:
      \<open>parsedList.map(...).filter(expense => expense !== null)\<close>\<close>
  "scanSmsForExpenses parsedList =
     map the (filter (\<lambda>expense. expense \<noteq> None)
                     (map (\<lambda>m. parseExpenseFromSms (body m) (sms.date m)) parsedList))"


section \<open>Vocabulary of the statements\<close>

text \<open>
  The following definitions describe, without the matcher, what the pattern accepts.
  They are used to state the properties and are related to \<open>rmatch amountRegex\<close> by the
  lemmas below.
\<close>

definition matches_at :: "jsstring \<Rightarrow> nat \<Rightarrow> bool" where
  \<comment> \<open>the pattern of the source matches the input at position \<open>j\<close>\<close>
  "matches_at s j \<longleftrightarrow> rmatch amountRegex (drop j s) Map.empty \<noteq> []"

definition is_marker :: "jsstring \<Rightarrow> bool" where
  \<comment> \<open>a currency marker: \<open>RS\<close> or \<open>INR\<close> in any letter case, or the rupee sign\<close>
  "is_marker m \<longleftrightarrow>
     map Canonicalize m = js ''RS'' \<or> map Canonicalize m = js ''INR'' \<or> m = [rupee]"

definition digit_at :: "jsstring \<Rightarrow> nat \<Rightarrow> bool" where
  "digit_at u i \<longleftrightarrow> i < length u \<and> is_digit (u ! i)"

definition scan_fraction :: "jsstring \<Rightarrow> nat" where
  \<comment> \<open>the number of characters that group 2 takes at the start of \<open>u\<close>: an optional colon,
      a point and one or two digits; 0 when the group does not take part\<close>
  "scan_fraction u =
     (let k = (if take 1 u = [0x3A] then 1 else 0)
      in if take 1 (drop k u) = [0x2E] \<and> digit_at u (k + 1)
         then (if digit_at u (k + 2) then k + 3 else k + 2)
         else 0)"

definition token_len :: "jsstring \<Rightarrow> nat" where
  \<comment> \<open>the length of the text that group 1 takes at the start of \<open>t\<close>: the longest run of
      digits, then the fraction\<close>
  "token_len t = length (takeWhile is_digit t) + scan_fraction (dropWhile is_digit t)"

definition group2 :: "captures \<Rightarrow> jsstring \<Rightarrow> jsstring \<Rightarrow> jsstring \<times> jsstring \<times> captures" where
  "group2 c m s' = (m, s', c(2 \<mapsto> m))"

definition number_follows :: "jsstring \<Rightarrow> bool" where
  \<comment> \<open>a digit, or one white-space character and a digit, starts the string\<close>
  "number_follows t =
     (case t of [] \<Rightarrow> False
      | x # t' \<Rightarrow> is_digit x \<or> (is_space x \<and> (case t' of [] \<Rightarrow> False | y # _ \<Rightarrow> is_digit y)))"

definition amount_at :: "jsstring \<Rightarrow> bool" where
  \<comment> \<open>a marker, at most one white-space character and a digit start the string\<close>
  "amount_at s \<longleftrightarrow>
     (is_marker (take 1 s) \<and> number_follows (drop 1 s)) \<or>
     (is_marker (take 2 s) \<and> number_follows (drop 2 s)) \<or>
     (is_marker (take 3 s) \<and> number_follows (drop 3 s))"

fun has_amount :: "jsstring \<Rightarrow> bool" where
  \<comment> \<open>\<open>amount_at\<close> holds at some position of the string\<close>
  "has_amount [] = False"
| "has_amount (x # xs) = (amount_at (x # xs) \<or> has_amount xs)"

fun leftmost :: "jsstring \<Rightarrow> jsstring \<Rightarrow> bool" where
  \<comment> \<open>\<open>amount_at\<close> holds at no position of \<open>pre\<close> in \<open>pre @ t\<close>\<close>
  "leftmost [] t = True"
| "leftmost (x # pre) t = (\<not> amount_at (x # pre @ t) \<and> leftmost pre t)"

fun remove_first :: "jsstring \<Rightarrow> jsstring \<Rightarrow> jsstring" where
  \<comment> \<open>the string without the first occurrence of the substring \<open>m\<close>\<close>
  "remove_first m [] = []"
| "remove_first m (x # xs) =
     (if take (length m) (x # xs) = m then drop (length m) (x # xs) else x # remove_first m xs)"

subsection \<open>The pattern with the clean fraction rule\<close>

definition spec_fraction :: regex where
  \<comment> \<open>\<open>(?:\.\d{1,2})\<close>: a point and one or two digits, not captured\<close>
  "spec_fraction = Seq (Atom (Lit 0x2E)) (Rep Digit 1 (Some 2))"

definition spec_amountRegex :: regex where
  "spec_amountRegex =
     Seq marker (Seq (Opt (Atom Space)) (Group 1 (Seq (Rep Digit 1 None) (Opt spec_fraction))))"

definition spec_extract :: "jsstring \<Rightarrow> int \<Rightarrow> Expense option" where
  \<comment> \<open>the extractor of the specification: \<open>parseExpenseFromSms\<close> with the clean pattern\<close>
  "spec_extract s smsDate =
     (case match s spec_amountRegex of
        None \<Rightarrow> None
      | Some amountMatch \<Rightarrow>
          Some \<lparr>amount = (case groups amountMatch 1 of None \<Rightarrow> NaN | Some t \<Rightarrow> parseFloat t),
                description = slice (replace s spec_amountRegex []) 0 50 @ js ''...'',
                date = LocaleDateString smsDate\<rparr>)"


section \<open>Characters\<close>


lemma digit_not_space: "is_digit d \<Longrightarrow> \<not> is_space d"
  by (auto simp: is_digit_def is_space_def word_le_nat_alt)

lemma canon_R: "Canonicalize c = 0x52 \<longleftrightarrow> c = 0x52 \<or> c = 0x72"
  by (auto simp: Canonicalize_def diff_eq_eq)

lemma canon_colon: "Canonicalize c = 0x3A \<longleftrightarrow> c = 0x3A"
  by (auto simp: Canonicalize_def diff_eq_eq)

lemma canon_dot: "Canonicalize c = 0x2E \<longleftrightarrow> c = 0x2E"
  by (auto simp: Canonicalize_def diff_eq_eq)

lemma canon_rupee: "Canonicalize c = rupee \<longleftrightarrow> c = rupee"
  by (auto simp: Canonicalize_def diff_eq_eq rupee_def)

lemma canon_vals: "Canonicalize 0x52 = 0x52" "Canonicalize 0x53 = 0x53" "Canonicalize 0x49 = 0x49" "Canonicalize 0x4E = 0x4E"
  "Canonicalize 0x3A = 0x3A" "Canonicalize 0x2E = 0x2E" "Canonicalize rupee = rupee"
  by (simp_all add: Canonicalize_def rupee_def)

lemma rep_split: "(m, s') \<in> set (rep a lo hi s) \<Longrightarrow> s = m @ s'"
  by (induction s arbitrary: lo hi m) (auto split: if_splits)

lemma rmatch_split: "(m, s', c') \<in> set (rmatch r s c) \<Longrightarrow> s = m @ s'"
proof (induction r arbitrary: s c m s' c')
  case (Atom a)
  then show ?case by (auto split: list.splits if_splits)
next
  case (Seq r1 r2)
  then show ?case by fastforce
next
  case (Rep a lo hi)
  then show ?case by (auto dest: rep_split)
qed auto

lemma rep_digit0: "\<exists>rest. rep Digit 0 None t = (takeWhile is_digit t, dropWhile is_digit t) # rest"
  by (induction t) auto

lemma rep_digit1: "is_digit d \<Longrightarrow>
  \<exists>rest. rep Digit (Suc 0) None (d # t) = (d # takeWhile is_digit t, dropWhile is_digit t) # rest"
  using rep_digit0 [of t] by auto

lemma rep_digit1_none: "\<not> (\<exists>d t'. t = d # t' \<and> is_digit d) \<Longrightarrow> rep Digit (Suc 0) hi t = []"
  by (cases t) auto

lemma rep_zero: "rep a 0 (Some 0) s = [([], s)]"
  by (cases s) auto

lemma rep12: "rep Digit (Suc 0) (Some 2) v =
  (case v of [] \<Rightarrow> [] | x # w \<Rightarrow> if is_digit x then
     (case w of [] \<Rightarrow> [([x], [])] | y # w' \<Rightarrow> if is_digit y then [([x, y], w'), ([x], w)] else [([x], w)])
   else [])"
  by (auto split: list.splits simp: numeral_2_eq_2 rep_zero)

lemma atom_lit_colon: "atom_ok (Lit 0x3A) c \<longleftrightarrow> c = 0x3A"
  by (simp add: canon_vals canon_colon)

lemma atom_lit_dot: "atom_ok (Lit 0x2E) c \<longleftrightarrow> c = 0x2E"
  by (simp add: canon_vals canon_dot)

lemma opt_colon: "rmatch (Opt (Atom (Lit 0x3A))) u c =
  (case u of [] \<Rightarrow> [([], u, c)] | a # r \<Rightarrow> if a = 0x3A then [([a], r, c), ([], u, c)] else [([], u, c)])"
  by (auto split: list.splits simp: canon_vals canon_colon)

lemma dot_digits: "rmatch (Seq (Atom (Lit 0x2E)) (Rep Digit 1 (Some 2))) v c =
  (case v of [] \<Rightarrow> [] | p # v' \<Rightarrow> if p = 0x2E then
      map (\<lambda>(m, r). (p # m, r, c)) (rep Digit (Suc 0) (Some 2) v') else [])"
  by (auto split: list.splits simp: canon_vals canon_dot)

lemma scan_fraction_simps:
  "scan_fraction [] = 0"
  "scan_fraction [a] = 0"
  "scan_fraction (0x2E # x # w) = (if is_digit x then (case w of [] \<Rightarrow> 2 | y # _ \<Rightarrow> if is_digit y then 3 else 2) else 0)"
  "scan_fraction [0x3A, b] = 0"
  "scan_fraction (0x3A # 0x2E # x # w) = (if is_digit x then (case w of [] \<Rightarrow> 3 | y # _ \<Rightarrow> if is_digit y then 4 else 3) else 0)"
  "a \<noteq> 0x3A \<Longrightarrow> a \<noteq> 0x2E \<Longrightarrow> scan_fraction (a # u) = 0"
  "b \<noteq> 0x2E \<Longrightarrow> scan_fraction (0x3A # b # u) = 0"
  by (auto simp: scan_fraction_def digit_at_def split: list.splits)

lemma seq_opt_colon:
  "rmatch (Seq (Opt (Atom (Lit 0x3A))) X) u c =
     (case u of [] \<Rightarrow> rmatch X [] c
      | a # r \<Rightarrow> if a = 0x3A then map (\<lambda>(m, s', c'). (a # m, s', c')) (rmatch X r c) @ rmatch X u c
                 else rmatch X u c)"
  by (subst rmatch.simps(2), subst opt_colon) (auto split: list.splits simp: comp_def case_prod_unfold)

lemma fraction_eq:
  "rmatch fraction u c =
     (if scan_fraction u = 0 then []
      else if scan_fraction u = 2 \<or> (scan_fraction u = 3 \<and> take 1 u = [0x3A])
           then [group2 c (take (scan_fraction u) u) (drop (scan_fraction u) u)]
      else [group2 c (take (scan_fraction u) u) (drop (scan_fraction u) u),
            group2 c (take (scan_fraction u - 1) u) (drop (scan_fraction u - 1) u)])"
  unfolding fraction_def
  apply (subst rmatch.simps(6))
  apply (subst seq_opt_colon)
  apply (simp only: dot_digits rep12)
  apply (auto split: list.splits simp: scan_fraction_def digit_at_def group2_def)
  done

lemma scan_fraction_le: "scan_fraction u \<le> length u"
  by (auto simp: scan_fraction_def digit_at_def Let_def split: if_splits)

lemma opt_fraction_hd:
  "\<exists>rest. rmatch (Opt fraction) u c =
     (take (scan_fraction u) u, drop (scan_fraction u) u,
      if scan_fraction u = 0 then c else c(2 \<mapsto> take (scan_fraction u) u)) # rest"
proof (cases "scan_fraction u = 0")
  case True
  then show ?thesis by (simp add: fraction_eq)
next
  case False
  then have "take (scan_fraction u) u \<noteq> []"
    using scan_fraction_le [of u] by auto
  with False show ?thesis
    by (auto simp: fraction_eq group2_def)
qed

lemma take_token_len:
  "take (token_len t) t = takeWhile is_digit t @ take (scan_fraction (dropWhile is_digit t)) (dropWhile is_digit t)"
proof -
  have "take (token_len t) (takeWhile is_digit t @ dropWhile is_digit t) =
        takeWhile is_digit t @ take (scan_fraction (dropWhile is_digit t)) (dropWhile is_digit t)"
    unfolding token_len_def by (simp only: take_append) simp
  then show ?thesis by simp
qed

lemma drop_token_len:
  "drop (token_len t) t = drop (scan_fraction (dropWhile is_digit t)) (dropWhile is_digit t)"
proof -
  have "drop (token_len t) (takeWhile is_digit t @ dropWhile is_digit t) =
        drop (scan_fraction (dropWhile is_digit t)) (dropWhile is_digit t)"
    unfolding token_len_def by (simp only: drop_append) simp
  then show ?thesis by simp
qed

lemma number_hd:
  assumes "is_digit d"
  shows "\<exists>rest c'. rmatch numeric_token (d # t) c =
           (take (token_len (d # t)) (d # t), drop (token_len (d # t)) (d # t), c') # rest
         \<and> c' 1 = Some (take (token_len (d # t)) (d # t))"
proof -
  let ?u = "dropWhile is_digit t"
  let ?n = "scan_fraction ?u"
  obtain r1 where r1: "rep Digit (Suc 0) None (d # t) = (d # takeWhile is_digit t, ?u) # r1"
    using rep_digit1 [OF assms] by blast
  obtain r2 where r2: "rmatch (Opt fraction) ?u c =
      (take ?n ?u, drop ?n ?u, if ?n = 0 then c else c(2 \<mapsto> take ?n ?u)) # r2"
    using opt_fraction_hd by blast
  have tk: "take (token_len (d # t)) (d # t) = (d # takeWhile is_digit t) @ take ?n ?u"
    using assms by (simp add: take_token_len)
  have dr: "drop (token_len (d # t)) (d # t) = drop ?n ?u"
    using assms by (simp add: drop_token_len)
  show ?thesis
    unfolding numeric_token_def tk dr
    apply (subst rmatch.simps(6))
    apply (subst rmatch.simps(2))
    apply (subst rmatch.simps(5))
    apply (simp only: One_nat_def r1)
    apply (simp del: rmatch.simps add: r2)
    done
qed

lemma number_none: "\<not> (\<exists>d t'. t = d # t' \<and> is_digit d) \<Longrightarrow> rmatch numeric_token t c = []"
  unfolding numeric_token_def by (simp add: rep_digit1_none)

lemma js_RS: "js ''RS'' = [0x52, 0x53]" "js ''INR'' = [0x49, 0x4E, 0x52]"
  by (simp_all add: js_def)

lemma canon_distinct:
  "Canonicalize a = 0x52 \<Longrightarrow> Canonicalize a \<noteq> 0x49"
  "Canonicalize a = 0x52 \<Longrightarrow> Canonicalize a \<noteq> rupee"
  "Canonicalize a = 0x49 \<Longrightarrow> Canonicalize a \<noteq> 0x52"
  "Canonicalize a = 0x49 \<Longrightarrow> Canonicalize a \<noteq> rupee"
  "Canonicalize rupee \<noteq> 0x52" "Canonicalize rupee \<noteq> 0x49"
  "rupee \<noteq> 0x52" "rupee \<noteq> 0x49" "0x52 \<noteq> rupee" "0x49 \<noteq> rupee"
  by (simp_all add: rupee_def Canonicalize_def)

lemma marker_eq:
  "rmatch marker s c =
     (if is_marker (take 2 s) then [(take 2 s, drop 2 s, c)]
      else if is_marker (take 3 s) then [(take 3 s, drop 3 s, c)]
      else if is_marker (take 1 s) then [(take 1 s, drop 1 s, c)]
      else [])"
proof (cases s)
  case Nil
  then show ?thesis by (simp add: marker_def is_marker_def js_RS)
next
  case s1: (Cons a s1)
  show ?thesis
  proof (cases s1)
    case Nil
    with s1 show ?thesis
      by (auto simp: marker_def is_marker_def js_RS canon_vals canon_rupee canon_distinct)
  next
    case s2: (Cons b s2)
    show ?thesis
    proof (cases s2)
      case Nil
      with s1 s2 show ?thesis
        by (auto simp: marker_def is_marker_def js_RS canon_vals canon_rupee canon_distinct)
    next
      case s3: (Cons c s3)
      with s1 s2 show ?thesis
        by (auto simp: marker_def is_marker_def js_RS canon_vals canon_rupee canon_distinct)
    qed
  qed
qed

lemma marker_app:
  assumes "is_marker mk"
  shows "rmatch marker (mk @ u) c = [(mk, u, c)]"
proof -
  consider (rs) "map Canonicalize mk = [0x52, 0x53]"
    | (inr) "map Canonicalize mk = [0x49, 0x4E, 0x52]"
    | (ru) "mk = [rupee]"
    using assms by (auto simp: is_marker_def js_RS)
  then show ?thesis
  proof cases
    case rs
    then obtain a b where mk: "mk = [a, b]" by (auto simp: map_eq_Cons_conv)
    have "is_marker (take 2 (mk @ u))" using assms mk by simp
    then show ?thesis unfolding marker_eq using mk by simp
  next
    case inr
    then obtain a b c where mk: "mk = [a, b, c]" and a: "Canonicalize a = 0x49"
      by (auto simp: map_eq_Cons_conv)
    have "\<not> is_marker [a, b]"
      using a by (simp add: is_marker_def js_RS canon_distinct)
    moreover have "is_marker (take 3 (mk @ u))" using assms mk by simp
    ultimately show ?thesis unfolding marker_eq using mk by simp
  next
    case ru
    have 1: "\<not> is_marker (rupee # x # xs)" for x xs
      by (simp add: is_marker_def js_RS canon_vals canon_distinct)
    show ?thesis
    proof (cases u)
      case Nil
      with ru assms show ?thesis unfolding marker_eq by simp
    next
      case (Cons x xs)
      show ?thesis
      proof (cases xs)
        case Nil
        with Cons ru assms 1 show ?thesis unfolding marker_eq by simp
      next
        case (Cons y ys)
        with \<open>u = x # xs\<close> ru assms 1 show ?thesis unfolding marker_eq by simp
      qed
    qed
  qed
qed

lemma marker_cases:
  "rmatch marker s c = [] \<or> (\<exists>mk u. s = mk @ u \<and> is_marker mk \<and> rmatch marker s c = [(mk, u, c)])"
proof (cases "rmatch marker s c = []")
  case True
  then show ?thesis ..
next
  case False
  then obtain n where "is_marker (take n s)" and "rmatch marker s c = [(take n s, drop n s, c)]"
    unfolding marker_eq by (auto split: if_splits)
  moreover have "s = take n s @ drop n s" by simp
  ultimately show ?thesis by blast
qed

lemma seq_opt_space:
  "rmatch (Seq (Opt (Atom Space)) X) u c =
     (case u of [] \<Rightarrow> rmatch X [] c
      | a # r \<Rightarrow> if is_space a then map (\<lambda>(m, s', c'). (a # m, s', c')) (rmatch X r c) @ rmatch X u c
                 else rmatch X u c)"
  by (subst rmatch.simps(2)) (auto split: list.splits simp: comp_def case_prod_unfold)

lemma amount_hd:
  assumes "is_marker mk" and "w = [] \<or> (\<exists>x. w = [x] \<and> is_space x)" and "is_digit d"
  shows "\<exists>rest c'. rmatch amountRegex (mk @ w @ d # t) c =
           (mk @ w @ take (token_len (d # t)) (d # t), drop (token_len (d # t)) (d # t), c') # rest
         \<and> c' 1 = Some (take (token_len (d # t)) (d # t))"
proof -
  obtain rest c' where n: "rmatch numeric_token (d # t) c =
      (take (token_len (d # t)) (d # t), drop (token_len (d # t)) (d # t), c') # rest"
      and c': "c' 1 = Some (take (token_len (d # t)) (d # t))"
    using number_hd [OF assms(3)] by blast
  have "\<exists>rest'. rmatch (Seq (Opt (Atom Space)) numeric_token) (w @ d # t) c =
      (w @ take (token_len (d # t)) (d # t), drop (token_len (d # t)) (d # t), c') # rest'"
    using assms(2) n digit_not_space [OF assms(3)]
    by (auto simp: seq_opt_space simp del: rmatch.simps)
  then obtain rest' where "rmatch (Seq (Opt (Atom Space)) numeric_token) (w @ d # t) c =
      (w @ take (token_len (d # t)) (d # t), drop (token_len (d # t)) (d # t), c') # rest'" ..
  then have "rmatch amountRegex (mk @ w @ d # t) c =
      (mk @ w @ take (token_len (d # t)) (d # t), drop (token_len (d # t)) (d # t), c')
      # map (\<lambda>(m2, s2, c2). (mk @ m2, s2, c2)) rest'"
    unfolding amountRegex_def
    by (subst rmatch.simps(2)) (simp del: rmatch.simps add: marker_app [OF assms(1)])
  with c' show ?thesis by blast
qed

lemma amount_nonempty:
  assumes "rmatch amountRegex s c \<noteq> []"
  shows "\<exists>mk w d t. s = mk @ w @ d # t \<and> is_marker mk
           \<and> (w = [] \<or> (\<exists>x. w = [x] \<and> is_space x)) \<and> is_digit d"
proof -
  from assms have m: "rmatch marker s c \<noteq> []"
    unfolding amountRegex_def by (subst (asm) rmatch.simps(2)) auto
  then obtain mk u where s: "s = mk @ u" and mk: "is_marker mk"
      and r: "rmatch marker s c = [(mk, u, c)]"
    using marker_cases [of s c] by blast
  from assms r have "rmatch (Seq (Opt (Atom Space)) numeric_token) u c \<noteq> []"
    unfolding amountRegex_def by (subst (asm) rmatch.simps(2)) (simp del: rmatch.simps)
  then have "(\<exists>d t. u = d # t \<and> is_digit d) \<or> (\<exists>x d t. u = x # d # t \<and> is_space x \<and> is_digit d)"
    using number_none
    by (fastforce simp: seq_opt_space simp del: rmatch.simps split: list.splits if_splits)
  with s mk show ?thesis by (metis append_Cons append_Nil)
qed

lemma number_follows_iff:
  "number_follows u \<longleftrightarrow>
     (\<exists>w d t. u = w @ d # t \<and> (w = [] \<or> (\<exists>x. w = [x] \<and> is_space x)) \<and> is_digit d)"
  (is "?L = ?R")
proof
  assume ?L
  then show ?R
    by (auto simp: number_follows_def split: list.splits) (metis append_Cons append_Nil)+
next
  assume ?R
  then show ?L
    by (auto simp: number_follows_def split: list.splits)
qed

lemma is_marker_length: "is_marker mk \<Longrightarrow> length mk = 1 \<or> length mk = 2 \<or> length mk = 3"
  by (auto simp: is_marker_def js_RS dest!: arg_cong [where f = length])

lemma amount_at_iff:
  "amount_at s \<longleftrightarrow>
     (\<exists>mk w d t. s = mk @ w @ d # t \<and> is_marker mk
        \<and> (w = [] \<or> (\<exists>x. w = [x] \<and> is_space x)) \<and> is_digit d)"
  (is "?L = ?R")
proof
  assume ?L
  then obtain n where "is_marker (take n s)" and "number_follows (drop n s)"
    unfolding amount_at_def by blast
  then obtain w d t where "drop n s = w @ d # t" "w = [] \<or> (\<exists>x. w = [x] \<and> is_space x)" "is_digit d"
    unfolding number_follows_iff by blast
  moreover have "s = take n s @ drop n s" by simp
  ultimately show ?R using \<open>is_marker (take n s)\<close> by metis
next
  assume ?R
  then obtain mk w d t where s: "s = mk @ w @ d # t" and mk: "is_marker mk"
    and w: "w = [] \<or> (\<exists>x. w = [x] \<and> is_space x)" and d: "is_digit d" by blast
  have nf: "number_follows (w @ d # t)"
    unfolding number_follows_iff using w d by blast
  have "take (length mk) s = mk" "drop (length mk) s = w @ d # t" using s by simp_all
  with mk nf is_marker_length [OF mk] show ?L
    unfolding amount_at_def by (metis One_nat_def)
qed

lemma rmatch_amount_nil: "rmatch amountRegex s c = [] \<longleftrightarrow> \<not> amount_at s"
proof
  assume "rmatch amountRegex s c = []"
  show "\<not> amount_at s"
  proof
    assume "amount_at s"
    then obtain mk w d t where "s = mk @ w @ d # t" "is_marker mk"
      "w = [] \<or> (\<exists>x. w = [x] \<and> is_space x)" "is_digit d"
      unfolding amount_at_iff by blast
    from amount_hd [OF this(2-4), of t c] this(1) \<open>rmatch amountRegex s c = []\<close>
    show False by auto
  qed
next
  assume "\<not> amount_at s"
  then show "rmatch amountRegex s c = []"
    using amount_nonempty [of s c] unfolding amount_at_iff by blast
qed

lemma exec_from_Nil:
  "exec_from r i [] =
     (case rmatch r [] Map.empty of
        [] \<Rightarrow> None
      | (m, s', c) # _ \<Rightarrow> Some \<lparr>index = i, matched = m, groups = c\<rparr>)"
  by (subst exec_from.simps) (simp split: list.splits)

lemma exec_from_Cons:
  "exec_from r i (x # xs) =
     (case rmatch r (x # xs) Map.empty of
        [] \<Rightarrow> exec_from r (Suc i) xs
      | (m, s', c) # _ \<Rightarrow> Some \<lparr>index = i, matched = m, groups = c\<rparr>)"
  by (subst exec_from.simps) (simp split: list.splits)

lemma exec_from_hit:
  "rmatch r t Map.empty = (m, s', c) # rest \<Longrightarrow>
   exec_from r i t = Some \<lparr>index = i, matched = m, groups = c\<rparr>"
  by (cases t) (simp_all add: exec_from_Nil exec_from_Cons del: rmatch.simps)

lemma exec_from_at:
  assumes "\<forall>j<length pre. rmatch r (drop j (pre @ t)) Map.empty = []"
    and "rmatch r t Map.empty = (m, s', c) # rest"
  shows "exec_from r i (pre @ t) = Some \<lparr>index = i + length pre, matched = m, groups = c\<rparr>"
  using assms(1)
proof (induction pre arbitrary: i)
  case Nil
  then show ?case using exec_from_hit [OF assms(2)] by simp
next
  case (Cons x pre)
  from Cons.prems have 0: "rmatch r (x # pre @ t) Map.empty = []" by force
  have "\<forall>j<length pre. rmatch r (drop j (pre @ t)) Map.empty = []"
  proof (intro allI impI)
    fix j assume "j < length pre"
    then have "Suc j < length (x # pre)" by simp
    with Cons.prems have "rmatch r (drop (Suc j) ((x # pre) @ t)) Map.empty = []" by blast
    then show "rmatch r (drop j (pre @ t)) Map.empty = []" by simp
  qed
  from Cons.IH [OF this, of "Suc i"] 0 show ?case
    by (simp add: exec_from_Cons del: rmatch.simps)
qed

lemma amount_at_Nil: "\<not> amount_at []"
  by (simp add: amount_at_def number_follows_def)

lemma exec_amount_none: "exec_from amountRegex i s = None \<longleftrightarrow> \<not> has_amount s"
proof (induction s arbitrary: i)
  case Nil
  have "rmatch amountRegex [] Map.empty = []"
    by (simp add: rmatch_amount_nil amount_at_Nil del: rmatch.simps)
  then show ?case by (simp add: exec_from_Nil del: rmatch.simps)
next
  case (Cons x xs)
  show ?case
  proof (cases "amount_at (x # xs)")
    case True
    then have "rmatch amountRegex (x # xs) Map.empty \<noteq> []"
      by (simp add: rmatch_amount_nil del: rmatch.simps)
    then obtain m s' c rest where "rmatch amountRegex (x # xs) Map.empty = (m, s', c) # rest"
      by (cases "rmatch amountRegex (x # xs) Map.empty") auto
    from exec_from_hit [OF this] True show ?thesis by simp
  next
    case False
    then have "rmatch amountRegex (x # xs) Map.empty = []"
      by (simp add: rmatch_amount_nil del: rmatch.simps)
    with False Cons.IH [of "Suc i"] show ?thesis
      by (simp add: exec_from_Cons del: rmatch.simps)
  qed
qed

lemma has_amount_iff: "has_amount s \<longleftrightarrow> (\<exists>pre t. s = pre @ t \<and> amount_at t)"
proof (induction s)
  case Nil
  then show ?case by (simp add: amount_at_Nil)
next
  case (Cons x xs)
  show ?case
  proof
    assume "has_amount (x # xs)"
    then consider "amount_at (x # xs)" | "has_amount xs" by auto
    then show "\<exists>pre t. x # xs = pre @ t \<and> amount_at t"
    proof cases
      case 1
      then show ?thesis by (metis append_Nil)
    next
      case 2
      with Cons.IH obtain pre t where "xs = pre @ t" "amount_at t" by blast
      then show ?thesis by (metis append_Cons)
    qed
  next
    assume "\<exists>pre t. x # xs = pre @ t \<and> amount_at t"
    then obtain pre t where e: "x # xs = pre @ t" and a: "amount_at t" by blast
    show "has_amount (x # xs)"
    proof (cases pre)
      case Nil
      with e have "t = x # xs" by simp
      with a show ?thesis by simp
    next
      case (Cons y ys)
      with e have "xs = ys @ t" by simp
      with a Cons.IH show ?thesis by auto
    qed
  qed
qed

lemma leftmost_iff: "leftmost pre t \<longleftrightarrow> (\<forall>j<length pre. \<not> amount_at (drop j (pre @ t)))"
proof (induction pre)
  case Nil
  then show ?case by simp
next
  case (Cons x pre)
  have "(\<forall>j<length (x # pre). \<not> amount_at (drop j ((x # pre) @ t))) \<longleftrightarrow>
        \<not> amount_at (x # pre @ t) \<and> (\<forall>j<length pre. \<not> amount_at (drop j (pre @ t)))"
    by (simp add: All_less_Suc2)
  with Cons.IH show ?case by simp
qed

lemma token_split: "d # t = take (token_len (d # t)) (d # t) @ drop (token_len (d # t)) (d # t)"
  by simp

lemma match_at:
  assumes "is_marker mk" and "w = [] \<or> (\<exists>x. w = [x] \<and> is_space x)" and "is_digit d"
    and "\<forall>j<length pre. \<not> amount_at (drop j (pre @ mk @ w @ d # t))"
  shows "\<exists>c'. exec_from amountRegex 0 (pre @ mk @ w @ d # t) =
            Some \<lparr>index = length pre, matched = mk @ w @ take (token_len (d # t)) (d # t), groups = c'\<rparr>
          \<and> c' 1 = Some (take (token_len (d # t)) (d # t))"
proof -
  obtain rest c' where 1: "rmatch amountRegex (mk @ w @ d # t) Map.empty =
      (mk @ w @ take (token_len (d # t)) (d # t), drop (token_len (d # t)) (d # t), c') # rest"
    and 2: "c' 1 = Some (take (token_len (d # t)) (d # t))"
    using amount_hd [OF assms(1-3)] by blast
  have "\<forall>j<length pre. rmatch amountRegex (drop j (pre @ mk @ w @ d # t)) Map.empty = []"
    using assms(4) by (simp add: rmatch_amount_nil del: rmatch.simps)
  from exec_from_at [OF this 1, of 0] 2 show ?thesis by simp
qed

lemma parse_at:
  assumes "is_marker mk" and "w = [] \<or> (\<exists>x. w = [x] \<and> is_space x)" and "is_digit d"
    and "\<forall>j<length pre. \<not> amount_at (drop j (pre @ mk @ w @ d # t))"
  shows "parseExpenseFromSms (pre @ mk @ w @ d # t) sd =
           Some \<lparr>amount = parseFloat (take (token_len (d # t)) (d # t)),
                 description = take 50 (pre @ drop (token_len (d # t)) (d # t)) @ js ''...'',
                 date = LocaleDateString sd\<rparr>"
proof -
  let ?tok = "take (token_len (d # t)) (d # t)"
  let ?rest = "drop (token_len (d # t)) (d # t)"
  obtain c' where e: "exec_from amountRegex 0 (pre @ mk @ w @ d # t) =
      Some \<lparr>index = length pre, matched = mk @ w @ ?tok, groups = c'\<rparr>"
    and c': "c' 1 = Some ?tok"
    using match_at [OF assms] by blast
  have b: "pre @ mk @ w @ d # t = pre @ (mk @ w @ ?tok) @ ?rest"
    using token_split [of d t] by simp
  have "drop (length pre + length (mk @ w @ ?tok)) (pre @ mk @ w @ d # t) = ?rest"
    by (subst b) (simp only: drop_append length_append, simp)
  then have "replace (pre @ mk @ w @ d # t) amountRegex [] = pre @ ?rest"
    unfolding replace_def by (simp add: e)
  moreover have "c' (Suc 0) = Some ?tok" using c' by simp
  ultimately show ?thesis
    unfolding parseExpenseFromSms_def match_def by (simp add: e slice_def)
qed

lemma parse_none: "parseExpenseFromSms s sd = None \<longleftrightarrow> \<not> has_amount s"
  unfolding parseExpenseFromSms_def match_def
  using exec_amount_none [of 0 s] by (auto split: option.splits)


section \<open>Numbers\<close>


lemma pow2_powi: "pow2 e = 2 powi e"
  by (simp add: pow2_def power_int_def power_one_over)

lemma pow2_pos: "0 < pow2 e"
  by (simp add: pow2_powi)

lemma pow2_add: "pow2 (a + b) = pow2 a * pow2 b"
  by (simp add: pow2_powi power_int_add)

lemma pow2_mono: "a \<le> b \<Longrightarrow> pow2 a \<le> pow2 b"
  by (simp add: pow2_powi power_int_increasing)

lemma pow2_nat: "pow2 (int n) = 2 ^ n"
  by (simp add: pow2_def)

lemma binade_lower:
  assumes "0 < a" and "0 < b"
  shows "pow2 (binade a b) \<le> of_int a / of_int b"
proof -
  define e where "e = bitlen a - bitlen b"
  have la: "(2::int) ^ nat (bitlen a - 1) \<le> a" using bitlen_bounds [OF assms(1)] by simp
  have lb: "b < 2 ^ nat (bitlen b)" using bitlen_bounds [OF assms(2)] by simp
  have ba: "1 \<le> bitlen a" using assms(1) bitlen_eq_zero_iff [of a] bitlen_nonneg [of a] by linarith
  have bb: "0 \<le> bitlen b" by (rule bitlen_nonneg)
  have bpos: "(0::rat) < of_int b" using assms(2) by simp
  show ?thesis
  proof (cases "if 0 \<le> e then 2 ^ nat e * b \<le> a else b \<le> 2 ^ nat (- e) * a")
    case True
    then have be: "binade a b = e" unfolding binade_def e_def Let_def by simp
    have "pow2 e * of_int b \<le> (of_int a :: rat)"
    proof (cases "0 \<le> e")
      case True
      with \<open>if 0 \<le> e then _ else _\<close> have "2 ^ nat e * b \<le> a" by simp
      then have "(of_int (2 ^ nat e * b) :: rat) \<le> of_int a" by (simp only: of_int_le_iff)
      with True show ?thesis by (simp add: pow2_def)
    next
      case False
      with \<open>if 0 \<le> e then _ else _\<close> have "b \<le> 2 ^ nat (- e) * a" by simp
      then have "(of_int b :: rat) \<le> of_int (2 ^ nat (- e) * a)" by (simp only: of_int_le_iff)
      with False show ?thesis by (simp add: pow2_def field_simps)
    qed
    with bpos be show ?thesis by (simp add: pos_le_divide_eq)
  next
    case False
    then have be: "binade a b = e - 1" unfolding binade_def e_def Let_def by simp
    have "(of_int b :: rat) \<le> 2 ^ nat (bitlen b)"
      using lb by (metis of_int_le_iff less_imp_le of_int_numeral of_int_power)
    then have 1: "(of_int b :: rat) \<le> pow2 (bitlen b)"
      using bb by (simp add: pow2_def)
    have "(2 ^ nat (bitlen a - 1) :: rat) \<le> of_int a"
      using la by (metis of_int_le_iff of_int_numeral of_int_power)
    then have 2: "pow2 (bitlen a - 1) \<le> (of_int a :: rat)"
      using ba by (simp add: pow2_def)
    have "pow2 (e - 1) * of_int b \<le> pow2 (e - 1) * pow2 (bitlen b)"
      using 1 pow2_pos [of "e - 1"] by (simp add: mult_left_mono)
    also have "\<dots> = pow2 (bitlen a - 1)"
      unfolding pow2_add [symmetric] e_def by simp
    also have "\<dots> \<le> of_int a" by (rule 2)
    finally show ?thesis using bpos be by (simp add: pos_le_divide_eq)
  qed
qed

lemma round_half_even_nonneg: "0 \<le> n \<Longrightarrow> 0 < d \<Longrightarrow> 0 \<le> round_half_even n d"
  by (auto simp: round_half_even_def Let_def pos_imp_zdiv_nonneg_iff)

lemma round_half_even_upper:
  assumes "0 < d"
  shows "(of_int (round_half_even n d) :: rat) \<le> of_int n / of_int d + 1 / 2"
proof -
  have n: "n = d * (n div d) + n mod d" by simp
  have r0: "0 \<le> n mod d" using assms by simp
  have dpos: "(0::rat) < of_int d" using assms by simp
  have q: "(of_int (n div d) :: rat) = of_int n / of_int d - of_int (n mod d) / of_int d"
  proof -
    have "(of_int n :: rat) = of_int d * of_int (n div d) + of_int (n mod d)"
      by (metis n of_int_add of_int_mult)
    then show ?thesis using dpos by (simp add: field_simps)
  qed
  have q_le: "(of_int (n div d) :: rat) \<le> of_int n / of_int d"
    unfolding q using r0 dpos by simp
  show ?thesis
  proof (cases "2 * (n mod d) < d")
    case True
    then have "round_half_even n d = n div d" by (simp add: round_half_even_def Let_def)
    with q_le show ?thesis by simp
  next
    case False
    then have "(of_int d :: rat) \<le> of_int (2 * (n mod d))" by (simp only: of_int_le_iff)
    then have "(1/2 :: rat) \<le> of_int (n mod d) / of_int d"
      using dpos by (simp add: field_simps)
    then have "(of_int (n div d + 1) :: rat) \<le> of_int n / of_int d + 1 / 2"
      unfolding of_int_add q by simp
    moreover have "round_half_even n d \<le> n div d + 1"
      by (simp add: round_half_even_def Let_def)
    then have "(of_int (round_half_even n d) :: rat) \<le> of_int (n div d + 1)"
      by (simp only: of_int_le_iff)
    ultimately show ?thesis by linarith
  qed
qed

lemma round_half_even_exact: "0 < d \<Longrightarrow> round_half_even (m * d) d = m"
  by (simp add: round_half_even_def Let_def)

lemma quotient_of_pos:
  assumes "0 < x" and "quotient_of x = (a, b)"
  shows "0 < a" and "0 < b" and "x = of_int a / of_int b"
proof -
  show b: "0 < b" using assms(2) by (rule quotient_of_denom_pos)
  show x: "x = of_int a / of_int b" using assms(2) by (rule quotient_of_div)
  from assms(1) x b show "0 < a"
    by (simp add: zero_less_divide_iff)
qed

lemma scaled_round:
  fixes a b k :: int
  assumes "0 < a" and "0 < b"
  defines "n \<equiv> (if 0 \<le> k then round_half_even a (b * 2 ^ nat k)
                  else round_half_even (a * 2 ^ nat (- k)) b)"
  shows "0 \<le> n" and "of_int n * pow2 k \<le> of_int a / of_int b + pow2 (k - 1)"
proof -
  show "0 \<le> n"
    using assms(1,2) unfolding n_def by (auto intro!: round_half_even_nonneg)
  have half: "pow2 (k - 1) = pow2 k * (1 / 2)"
    using pow2_add [of k "- 1"] by (simp add: pow2_def)
  have bpos: "(0::rat) < of_int b" using assms(2) by simp
  show "of_int n * pow2 k \<le> of_int a / of_int b + pow2 (k - 1)"
  proof (cases "0 \<le> k")
    case True
    have "0 < b * 2 ^ nat k" using assms(2) by simp
    from round_half_even_upper [OF this, of a]
    have "(of_int n :: rat) \<le> of_int a / (of_int b * 2 ^ nat k) + 1 / 2"
      unfolding n_def using True by simp
    then have "of_int n * pow2 k \<le> (of_int a / (of_int b * 2 ^ nat k) + 1 / 2) * pow2 k"
      using pow2_pos [of k] by (simp add: mult_right_mono)
    also have "\<dots> = of_int a / of_int b + pow2 (k - 1)"
      using True bpos unfolding half by (simp add: pow2_def field_simps)
    finally show ?thesis .
  next
    case False
    from round_half_even_upper [OF assms(2), of "a * 2 ^ nat (- k)"]
    have "(of_int n :: rat) \<le> of_int a * 2 ^ nat (- k) / of_int b + 1 / 2"
      unfolding n_def using False by simp
    then have "of_int n * pow2 k \<le> (of_int a * 2 ^ nat (- k) / of_int b + 1 / 2) * pow2 k"
      using pow2_pos [of k] by (simp add: mult_right_mono)
    also have "\<dots> = of_int a / of_int b + pow2 (k - 1)"
      using False bpos unfolding half by (simp add: pow2_def field_simps)
    finally show ?thesis .
  qed
qed

lemma number_value_nonneg:
  assumes "0 \<le> x"
  shows "number_value x = PosInf \<or> (\<exists>q\<ge>0. number_value x = Fin q)"
proof (cases "x = 0")
  case True
  then show ?thesis by (simp add: number_value_def)
next
  case False
  with assms have x: "0 < x" by simp
  obtain a b where q: "quotient_of x = (a, b)" by (cases "quotient_of x")
  note ab = quotient_of_pos [OF x q]
  define k where "k = max (binade a b) (- 1022) - 52"
  define n where "n = (if 0 \<le> k then round_half_even a (b * 2 ^ nat k)
                  else round_half_even (a * 2 ^ nat (- k)) b)"
  have "0 \<le> n" unfolding n_def by (rule scaled_round(1) [OF ab(1,2)])
  then have "(0::rat) \<le> of_int n * pow2 k" using pow2_pos [of k] by simp
  moreover have "number_value x = (if 2 ^ 1024 \<le> of_int n * pow2 k then PosInf else Fin (of_int n * pow2 k))"
    using False q unfolding number_value_def n_def k_def by (simp add: Let_def)
  ultimately show ?thesis by auto
qed

lemma number_value_finite:
  assumes "0 \<le> x" and "x < 2 ^ 1024 - 2 ^ 970"
  shows "\<exists>q\<ge>0. number_value x = Fin q"
proof (cases "x = 0")
  case True
  then show ?thesis by (simp add: number_value_def)
next
  case False
  with assms have x: "0 < x" by simp
  obtain a b where q: "quotient_of x = (a, b)" by (cases "quotient_of x")
  note ab = quotient_of_pos [OF x q]
  define k where "k = max (binade a b) (- 1022) - 52"
  define n where "n = (if 0 \<le> k then round_half_even a (b * 2 ^ nat k)
                  else round_half_even (a * 2 ^ nat (- k)) b)"
  have nv: "number_value x = (if 2 ^ 1024 \<le> of_int n * pow2 k then PosInf else Fin (of_int n * pow2 k))"
    using False q unfolding number_value_def n_def k_def by (simp add: Let_def)
  have "binade a b \<le> 1023"
  proof (rule ccontr)
    assume "\<not> binade a b \<le> 1023"
    then have "1024 \<le> binade a b" by simp
    then have "pow2 1024 \<le> pow2 (binade a b)" by (rule pow2_mono)
    also have "\<dots> \<le> x" unfolding ab(3) by (rule binade_lower [OF ab(1,2)])
    finally have "2 ^ 1024 \<le> x" by (simp add: pow2_def)
    with assms(2) show False by simp
  qed
  then have "k - 1 \<le> 970" unfolding k_def by simp
  then have "pow2 (k - 1) \<le> pow2 970" by (rule pow2_mono)
  then have k970: "pow2 (k - 1) \<le> 2 ^ 970" by (simp add: pow2_def)
  have "of_int n * pow2 k \<le> x + pow2 (k - 1)"
    unfolding n_def ab(3) by (rule scaled_round(2) [OF ab(1,2)])
  also have "\<dots> < 2 ^ 1024" using assms(2) k970 by linarith
  finally have lt: "of_int n * pow2 k < 2 ^ 1024" .
  have "0 \<le> n" unfolding n_def by (rule scaled_round(1) [OF ab(1,2)])
  then have "(0::rat) \<le> of_int n * pow2 k" using pow2_pos [of k] by simp
  with lt nv show ?thesis by auto
qed

lemma number_value_int:
  assumes "0 \<le> m" and "m < 2 ^ 53"
  shows "number_value (of_int m) = Fin (of_int m)"
proof (cases "m = 0")
  case True
  then show ?thesis by (simp add: number_value_def)
next
  case False
  with assms have m: "0 < m" by simp
  have q: "quotient_of (of_int m :: rat) = (m, 1)"
    using quotient_of_int [of m] by (simp add: Rat.of_int_def)
  define k where "k = max (binade m 1) (- 1022) - 52"
  define n where "n = (if 0 \<le> k then round_half_even m (1 * 2 ^ nat k)
                  else round_half_even (m * 2 ^ nat (- k)) 1)"
  have nv: "number_value (of_int m) =
      (if 2 ^ 1024 \<le> of_int n * pow2 k then PosInf else Fin (of_int n * pow2 k))"
    using False q unfolding number_value_def n_def k_def by (simp add: Let_def)
  have "binade m 1 \<le> 52"
  proof (rule ccontr)
    assume "\<not> binade m 1 \<le> 52"
    then have "53 \<le> binade m 1" by simp
    then have "pow2 53 \<le> pow2 (binade m 1)" by (rule pow2_mono)
    also have "\<dots> \<le> of_int m / of_int 1" by (rule binade_lower [OF m]) simp
    finally have "(2 ^ 53 :: rat) \<le> of_int m" by (simp add: pow2_def)
    then have "(of_int (2 ^ 53) :: rat) \<le> of_int m" by simp
    then have "2 ^ 53 \<le> m" by (simp only: of_int_le_iff)
    with assms(2) show False by simp
  qed
  then have k: "k \<le> 0" unfolding k_def by simp
  have "n = m * 2 ^ nat (- k)"
  proof (cases "k = 0")
    case True
    then show ?thesis
      unfolding n_def using round_half_even_exact [of 1 m] by simp
  next
    case False
    with k have "\<not> 0 \<le> k" by simp
    then show ?thesis
      unfolding n_def using round_half_even_exact [of 1 "m * 2 ^ nat (- k)"] by simp
  qed
  then have "(of_int n :: rat) * pow2 k = of_int m * (2 ^ nat (- k) * pow2 k)"
    by simp
  also have "(2 ^ nat (- k) * pow2 k :: rat) = 1"
    using k by (cases "k = 0") (simp_all add: pow2_def)
  finally have y: "(of_int n :: rat) * pow2 k = of_int m" by simp
  have "(of_int m :: rat) < of_int (2 ^ 53)" using assms(2) by (simp only: of_int_less_iff)
  also have "\<dots> < 2 ^ 1024" by simp
  finally have "\<not> (2 ^ 1024 :: rat) \<le> of_int m" by simp
  then show ?thesis unfolding nv y by simp
qed

lemma digit_uint: "is_digit d \<Longrightarrow> 0 \<le> uint d - 48 \<and> uint d - 48 \<le> 9"
  by (simp add: is_digit_def word_le_def)

lemma digit_neq:
  assumes "is_digit d"
  shows "d \<noteq> 0x2D" "d \<noteq> 0x2B" "d \<noteq> 0x49" "d \<noteq> 0x2E" "d \<noteq> 0x3A" "d \<noteq> 0x65" "d \<noteq> 0x45"
  using assms by (auto simp: is_digit_def)

lemma colon_not_digit: "\<not> is_digit 0x3A" "\<not> is_digit 0x2E"
  by (simp_all add: is_digit_def)

lemma js_Infinity: "js ''Infinity'' = 0x49 # js ''nfinity''"
  by (simp add: js_def)

lemma digits_val_snoc: "digits_val (ds @ [x]) = 10 * digits_val ds + (uint x - 48)"
  by (simp add: digits_val_def)

lemma digits_val_bounds:
  "\<forall>x\<in>set ds. is_digit x \<Longrightarrow> 0 \<le> digits_val ds \<and> digits_val ds < 10 ^ length ds"
proof (induction ds rule: rev_induct)
  case Nil
  then show ?case by (simp add: digits_val_def)
next
  case (snoc x xs)
  then have ih: "0 \<le> digits_val xs" "digits_val xs < 10 ^ length xs" by simp_all
  from snoc.prems have "is_digit x" by simp
  from digit_uint [OF this] ih show ?case
    by (simp add: digits_val_snoc)
qed

lemma pow10_neg: "pow10 (0 - int n) = 1 / 10 ^ n"
  by (cases n) (simp_all add: pow10_def nat_add_distrib)

lemma unsigned_literal_plain:
  assumes "ds \<noteq> []" and "\<forall>x\<in>set ds. is_digit x"
    and "r = [] \<or> (\<exists>c r'. r = c # r' \<and> \<not> is_digit c \<and> c \<noteq> 0x2E \<and> c \<noteq> 0x65 \<and> c \<noteq> 0x45)"
  shows "unsigned_literal (ds @ r) = number_value (of_int (digits_val ds))"
proof -
  from assms(1) obtain d ds' where ds: "ds = d # ds'" by (cases ds) auto
  with assms(2) have d: "is_digit d" by simp
  have inf: "take 8 (ds @ r) \<noteq> js ''Infinity''"
    using digit_neq(3) [OF d] unfolding ds js_Infinity by simp
  have tw: "takeWhile is_digit (ds @ r) = ds"
    using assms(2,3) by (auto simp: takeWhile_append2)
  have dw: "dropWhile is_digit (ds @ r) = r"
    using assms(2,3) by (auto simp: dropWhile_append2)
  from assms(3) have ex: "exponent_part r = 0"
    by (auto simp: exponent_part_def)
  have fp: "(case r of [] \<Rightarrow> [] | c # r' \<Rightarrow> if c = 0x2E then takeWhile is_digit r' else []) = []"
    using assms(3) by auto
  have r2: "(case r of [] \<Rightarrow> [] | c # r' \<Rightarrow> if c = 0x2E then dropWhile is_digit r' else r) = r"
    using assms(3) by auto
  show ?thesis
    unfolding unsigned_literal_def Let_def
    by (simp only: inf if_False tw dw fp r2 ex) (simp add: assms(1) pow10_def)
qed

lemma unsigned_literal_point:
  assumes "ds \<noteq> []" and "\<forall>x\<in>set ds. is_digit x" and "\<forall>x\<in>set fd. is_digit x"
  shows "unsigned_literal (ds @ 0x2E # fd) = number_value (of_int (digits_val (ds @ fd)) / 10 ^ length fd)"
proof -
  from assms(1) obtain d ds' where ds: "ds = d # ds'" by (cases ds) auto
  with assms(2) have d: "is_digit d" by simp
  have inf: "take 8 (ds @ 0x2E # fd) \<noteq> js ''Infinity''"
    using digit_neq(3) [OF d] unfolding ds js_Infinity by simp
  have tw: "takeWhile is_digit (ds @ 0x2E # fd) = ds"
    using assms(2) by (simp add: takeWhile_append2 colon_not_digit)
  have dw: "dropWhile is_digit (ds @ 0x2E # fd) = 0x2E # fd"
    using assms(2) by (simp add: dropWhile_append2 colon_not_digit)
  have tf: "takeWhile is_digit fd = fd" using assms(3) by simp
  have df: "dropWhile is_digit fd = []" using assms(3) by simp
  show ?thesis
    unfolding unsigned_literal_def Let_def
    by (simp only: inf if_False tw dw)
       (simp add: assms(1) tf df exponent_part_def pow10_neg [simplified])
qed

lemma parseFloat_digit:
  assumes "is_digit d"
  shows "parseFloat (d # r) = unsigned_literal (d # r)"
  using digit_not_space [OF assms] digit_neq [OF assms]
  by (simp add: parseFloat_def)

lemma point_shape:
  "scan_fraction (0x2E # v) = 0 \<or>
   (\<exists>fd. fd \<noteq> [] \<and> (\<forall>x\<in>set fd. is_digit x) \<and> length fd \<le> 2 \<and>
      scan_fraction (0x2E # v) = Suc (length fd) \<and> take (length fd) v = fd)"
proof (cases v)
  case Nil
  then show ?thesis by (simp add: scan_fraction_simps)
next
  case v: (Cons x w)
  show ?thesis
  proof (cases "is_digit x")
    case False
    with v show ?thesis by (simp add: scan_fraction_simps)
  next
    case True
    show ?thesis
    proof (cases w)
      case Nil
      with v True have "scan_fraction (0x2E # v) = Suc (length [x])" "take (length [x]) v = [x]"
        by (simp_all add: scan_fraction_simps)
      with True show ?thesis by (intro disjI2 exI [of _ "[x]"]) simp
    next
      case w: (Cons y w')
      show ?thesis
      proof (cases "is_digit y")
        case y: True
        with v w True have "scan_fraction (0x2E # v) = Suc (length [x, y])" "take (length [x, y]) v = [x, y]"
          by (simp_all add: scan_fraction_simps)
        with True y show ?thesis by (intro disjI2 exI [of _ "[x, y]"]) simp
      next
        case y: False
        with v w True have "scan_fraction (0x2E # v) = Suc (length [x])" "take (length [x]) v = [x]"
          by (simp_all add: scan_fraction_simps)
        with True show ?thesis by (intro disjI2 exI [of _ "[x]"]) simp
      qed
    qed
  qed
qed

lemma scan_fraction_colon: "scan_fraction (0x3A # v) = (if scan_fraction v = 0 \<or> take 1 v \<noteq> [0x2E] then 0 else Suc (scan_fraction v))"
  by (cases v) (auto simp: scan_fraction_def digit_at_def Let_def)

lemma fraction_shape:
  "scan_fraction u = 0 \<or>
   (\<exists>fd. fd \<noteq> [] \<and> (\<forall>x\<in>set fd. is_digit x) \<and> length fd \<le> 2 \<and>
      (take (scan_fraction u) u = 0x2E # fd \<or> take (scan_fraction u) u = 0x3A # 0x2E # fd))"
proof (cases u)
  case Nil
  then show ?thesis by (simp add: scan_fraction_simps)
next
  case u: (Cons a v)
  consider (point) "a = 0x2E" | (colon) "a = 0x3A" | (other) "a \<noteq> 0x2E" "a \<noteq> 0x3A" by blast
  then show ?thesis
  proof cases
    case point
    show ?thesis
    proof (cases "scan_fraction (0x2E # v) = 0")
      case True
      then show ?thesis unfolding u point by simp
    next
      case False
      with point_shape [of v] obtain fd where fd: "fd \<noteq> []" "\<forall>x\<in>set fd. is_digit x"
          "length fd \<le> 2" "scan_fraction (0x2E # v) = Suc (length fd)" "take (length fd) v = fd"
        by blast
      have "take (scan_fraction u) u = 0x2E # fd"
        unfolding u point fd(4) using fd(5) by simp
      with fd(1-3) show ?thesis by blast
    qed
  next
    case colon
    show ?thesis
    proof (cases "scan_fraction v = 0 \<or> take 1 v \<noteq> [0x2E]")
      case True
      then show ?thesis unfolding u colon by (simp add: scan_fraction_colon)
    next
      case False
      then obtain v' where v: "v = 0x2E # v'" by (cases v) auto
      from False have n: "scan_fraction (0x3A # v) = Suc (scan_fraction v)"
        by (simp add: scan_fraction_colon)
      from point_shape [of v'] False obtain fd where fd: "fd \<noteq> []" "\<forall>x\<in>set fd. is_digit x"
          "length fd \<le> 2" "scan_fraction (0x2E # v') = Suc (length fd)" "take (length fd) v' = fd"
        unfolding v by blast
      have n': "scan_fraction (0x3A # 0x2E # v') = Suc (Suc (length fd))"
        using n fd(4) unfolding v by simp
      have "take (scan_fraction u) u = 0x3A # 0x2E # fd"
        unfolding u colon v n' using fd(5) by simp
      with fd(1-3) show ?thesis by blast
    qed
  next
    case other
    then show ?thesis unfolding u by (simp add: scan_fraction_simps)
  qed
qed

lemma token_parse:
  assumes "is_digit d"
  shows "\<exists>v. 0 \<le> v \<and> v < 10 ^ length (takeWhile is_digit (d # t))
           \<and> parseFloat (take (token_len (d # t)) (d # t)) = number_value v"
proof -
  let ?ds = "takeWhile is_digit (d # t)"
  let ?u = "dropWhile is_digit (d # t)"
  let ?n = "scan_fraction ?u"
  have ds: "?ds \<noteq> []" "\<forall>x\<in>set ?ds. is_digit x"
    using assms by (auto dest: set_takeWhileD)
  have hd: "?ds = d # takeWhile is_digit t" using assms by simp
  have tok: "take (token_len (d # t)) (d # t) = ?ds @ take ?n ?u"
    by (rule take_token_len)
  have pf: "parseFloat (?ds @ r) = unsigned_literal (?ds @ r)" for r
    unfolding hd using parseFloat_digit [OF assms] by simp
  note b = digits_val_bounds [OF ds(2)]
  have plain: "\<exists>v. 0 \<le> v \<and> v < 10 ^ length ?ds \<and> unsigned_literal (?ds @ r) = number_value v"
    if "r = [] \<or> (\<exists>c r'. r = c # r' \<and> \<not> is_digit c \<and> c \<noteq> 0x2E \<and> c \<noteq> 0x65 \<and> c \<noteq> 0x45)" for r
  proof -
    have "(of_int (digits_val ?ds) :: rat) < of_int (10 ^ length ?ds)"
      using b by (simp only: of_int_less_iff)
    moreover have "(0::rat) \<le> of_int (digits_val ?ds)" using b by simp
    ultimately show ?thesis
      using unsigned_literal_plain [OF ds that] by (intro exI [of _ "of_int (digits_val ?ds)"]) simp
  qed
  from fraction_shape [of ?u] consider (none) "?n = 0"
    | (point) fd where "\<forall>x\<in>set fd. is_digit x" "take ?n ?u = 0x2E # fd"
    | (colon) fd where "take ?n ?u = 0x3A # 0x2E # fd" by auto
  then show ?thesis
  proof cases
    case none
    with plain [of "[]"] show ?thesis unfolding tok pf by simp
  next
    case (colon fd)
    with plain [of "0x3A # 0x2E # fd"] show ?thesis
      unfolding tok pf by (simp add: colon_not_digit)
  next
    case (point fd)
    have all: "\<forall>x\<in>set (?ds @ fd). is_digit x" using ds(2) point(1) by auto
    note bb = digits_val_bounds [OF all]
    let ?v = "(of_int (digits_val (?ds @ fd)) :: rat) / 10 ^ length fd"
    have "(of_int (digits_val (?ds @ fd)) :: rat) < of_int (10 ^ length (?ds @ fd))"
      using bb by (simp only: of_int_less_iff)
    then have "?v < 10 ^ length ?ds"
      by (simp add: power_add pos_divide_less_eq)
    moreover have "0 \<le> ?v" using bb by simp
    moreover have "parseFloat (take (token_len (d # t)) (d # t)) = number_value ?v"
      unfolding tok pf point(2) by (rule unsigned_literal_point [OF ds point(1)])
    ultimately show ?thesis by blast
  qed
qed

lemma parseFloat_int:
  assumes "ds \<noteq> []" and "\<forall>x\<in>set ds. is_digit x" and "digits_val ds < 2 ^ 53"
  shows "parseFloat ds = Fin (of_int (digits_val ds))"
proof -
  from assms(1) obtain d ds' where ds: "ds = d # ds'" by (cases ds) auto
  with assms(2) have "is_digit d" by simp
  then have "parseFloat ds = unsigned_literal (ds @ [])"
    unfolding ds using parseFloat_digit by simp
  also have "\<dots> = number_value (of_int (digits_val ds))"
    by (rule unsigned_literal_plain [OF assms(1,2)]) simp
  also have "\<dots> = Fin (of_int (digits_val ds))"
    using digits_val_bounds [OF assms(2)] assms(3) by (intro number_value_int) simp_all
  finally show ?thesis .
qed

lemma parseFloat_point:
  assumes "ds \<noteq> []" and "\<forall>x\<in>set ds. is_digit x" and "\<forall>x\<in>set fd. is_digit x"
  shows "parseFloat (ds @ 0x2E # fd) = number_value (of_int (digits_val (ds @ fd)) / 10 ^ length fd)"
proof -
  from assms(1) obtain d ds' where ds: "ds = d # ds'" by (cases ds) auto
  with assms(2) have "is_digit d" by simp
  then have "parseFloat (ds @ 0x2E # fd) = unsigned_literal (ds @ 0x2E # fd)"
    unfolding ds using parseFloat_digit by simp
  then show ?thesis using unsigned_literal_point [OF assms] by simp
qed

section \<open>The extractor on the inputs of the specification\<close>

text \<open>
  C9: the currency marker is not anchored at a word boundary. In the body
  \<open>offers 50 off today\<close> the letters \<open>rs\<close> that end the word \<open>offers\<close>, the space and the
  digits \<open>50\<close> are taken as an amount: the extractor returns an Expense of amount 50, and
  the description is the body without \<open>rs 50\<close>.
\<close>

theorem no_word_boundary:
  "parseExpenseFromSms (js ''offers 50 off today'') sd =
     Some \<lparr>amount = Fin 50, description = js ''offe off today...'', date = LocaleDateString sd\<rparr>"
proof -
  have mk: "is_marker (js ''rs'')"
    by (simp add: is_marker_def js_def Canonicalize_def)
  have w: "js '' '' = [] \<or> (\<exists>x. js '' '' = [x] \<and> is_space x)"
    by (simp add: js_def is_space_def)
  have d: "is_digit 0x35" by (simp add: is_digit_def)
  have "leftmost (js ''offe'') (js ''rs'' @ js '' '' @ 0x35 # js ''0 off today'')"
    by code_simp
  then have lm: "\<forall>j<length (js ''offe''). \<not> amount_at (drop j (js ''offe'' @ js ''rs'' @ js '' '' @ 0x35 # js ''0 off today''))"
    by (simp only: leftmost_iff)
  have tl: "token_len (0x35 # js ''0 off today'') = 2"
    by code_simp
  have b: "js ''offers 50 off today'' = js ''offe'' @ js ''rs'' @ js '' '' @ 0x35 # js ''0 off today''"
    by (simp add: js_def)
  have pf: "parseFloat [0x35, 0x30] = Fin 50"
    using parseFloat_int [of "[0x35, 0x30]"] by (simp add: is_digit_def digits_val_def)
  show ?thesis
    unfolding b parse_at [OF mk w d lm] tl
    by (simp add: js_def pf)
qed

end
